theory Spec2Isabelle
  imports Main "HOL-Library.Sublist"
begin

section \<open>NekoBot core client (neko\_bot/core/nekobot.py)\<close>

subsection \<open>Exceptions\<close>

text \<open>
  The exception classes that matter in this file. \<open>KeyError\<close>, \<open>AttributeError\<close> and
  \<open>TypeError\<close> are what the dictionary and list operations of the source raise.
  \<open>CancelledError\<close> and \<open>RuntimeError\<close> (standing for the class and its subclasses) are the
  two classes named by the \<open>except\<close> clause of \<open>begin\<close>. \<open>OtherError\<close> is any other exception
  class a collaborator may raise (a connection error, an import error, ...), tagged by its
  name.
\<close>

datatype error =
    KeyError
  | AttributeError
  | TypeError
  | CancelledError
  | RuntimeError
  | OtherError string

subsection \<open>Staff registry\<close>

text \<open>
  \<open>staff = dict()\<close> is keyed by rank name. The entry under \<open>"owner"\<close> is an integer
  (\<open>Config.OWNER_ID\<close>), the entries under \<open>"dev"\<close> and \<open>"sudo"\<close> are lists of integers.
\<close>

datatype staff_val = Ident int | Idents "int list"

type_synonym staff_dict = "string \<rightharpoonup> staff_val"

text \<open>A record of the \<open>STAFF\<close> collection: \<open>i["rank"]\<close> and \<open>i["_id"]\<close>.\<close>

record staff_doc =
  doc_rank :: string
  doc_id :: int

text \<open>
  What \<open>async for i in _db.find()\<close> iterates: the records in order, and then either the
  end of the iteration (\<open>None\<close>) or an error raised by the database driver.
\<close>

type_synonym cursor = "staff_doc list \<times> error option"

text \<open>
  The configuration read from \<open>Config\<close>.
\<close>

record config =
  API_ID :: int
  API_HASH :: string
  BOT_TOKEN :: string
  OWNER_ID :: int

text \<open>Line 35: \<open>self.staff["owner"] = Config.OWNER_ID\<close>.\<close>

definition init_staff :: "config \<Rightarrow> staff_dict \<Rightarrow> staff_dict" where
  "init_staff cfg s = s(''owner'' \<mapsto> Ident (OWNER_ID cfg))"

text \<open>
  The property \<open>staff_id\<close> (lines 46-51). Each subscript raises \<open>KeyError\<close> on a missing
  key, in the order the source evaluates them. \<open>+\<close> concatenates two lists; on two integers
  it yields an integer, which \<open>extend\<close> refuses, and on an integer and a list it is refused
  itself: a \<open>TypeError\<close> in each case. The result starts with whatever value is stored under
  \<open>"owner"\<close>.
\<close>

definition staff_id :: "staff_dict \<Rightarrow> error + staff_val list" where
  "staff_id s =
     (case s ''owner'' of
        None \<Rightarrow> Inl KeyError
      | Some ow \<Rightarrow>
          (case s ''dev'' of
             None \<Rightarrow> Inl KeyError
           | Some d \<Rightarrow>
               (case s ''sudo'' of
                  None \<Rightarrow> Inl KeyError
                | Some u \<Rightarrow>
                    (case (d, u) of
                       (Idents ds, Idents us) \<Rightarrow> Inr ([ow] @ map Ident (ds @ us))
                     | _ \<Rightarrow> Inl TypeError))))"

text \<open>
  The body of the loop of \<open>_load_staff\<close> (line 58): \<open>self.staff[i["rank"]].append(i["_id"])\<close>.
  A missing key raises \<open>KeyError\<close>; an integer entry has no \<open>append\<close> and raises
  \<open>AttributeError\<close>. The dictionary is returned with the error: a failure leaves what was
  appended before it in place.
\<close>

definition append_staff :: "staff_dict \<Rightarrow> staff_doc \<Rightarrow> staff_dict \<times> error option" where
  "append_staff s i =
     (case s (doc_rank i) of
        None \<Rightarrow> (s, Some KeyError)
      | Some (Ident n) \<Rightarrow> (s, Some AttributeError)
      | Some (Idents l) \<Rightarrow> (s(doc_rank i \<mapsto> Idents (l @ [doc_id i])), None))"

fun load_loop :: "staff_dict \<Rightarrow> staff_doc list \<Rightarrow> error option \<Rightarrow> staff_dict \<times> error option" where
  "load_loop s [] fin = (s, fin)"
| "load_loop s (i # rest) fin =
     (case append_staff s i of
        (s', Some e) \<Rightarrow> (s', Some e)
      | (s', None) \<Rightarrow> load_loop s' rest fin)"

text \<open>
  \<open>_load_staff\<close> (lines 53-58): \<open>self.staff.update({'dev': [], 'sudo': []})\<close>, then the loop.
\<close>

definition load_staff :: "staff_dict \<Rightarrow> cursor \<Rightarrow> staff_dict \<times> error option" where
  "load_staff s cur =
     load_loop (s(''dev'' \<mapsto> Idents [], ''sudo'' \<mapsto> Idents [])) (fst cur) (snd cur)"

text \<open>
  What the properties of the registry are stated with: the identifiers of one rank in
  iteration order, the two ranks \<open>_load_staff\<close> prepares a list for, the kind of a
  dictionary entry (absent, integer, list), two dictionaries that agree on the kind of every
  entry and on the \<open>"dev"\<close> and \<open>"sudo"\<close> entries, and the dictionaries this file can
  produce: the class attribute starts empty, \<open>__init__\<close> stores an integer under
  \<open>"owner"\<close>, \<open>_load_staff\<close> adds \<open>"dev"\<close> and \<open>"sudo"\<close>, and nothing adds another key.
\<close>

definition ids_of_rank :: "string \<Rightarrow> staff_doc list \<Rightarrow> int list" where
  "ids_of_rank r docs = map doc_id (filter (\<lambda>d. doc_rank d = r) docs)"

definition good_rank :: "staff_doc \<Rightarrow> bool" where
  "good_rank d = (doc_rank d = ''dev'' \<or> doc_rank d = ''sudo'')"

fun entry_kind :: "staff_val option \<Rightarrow> nat" where
  "entry_kind None = 0"
| "entry_kind (Some (Ident n)) = 1"
| "entry_kind (Some (Idents l)) = 2"

definition agree :: "staff_dict \<Rightarrow> staff_dict \<Rightarrow> bool" where
  "agree s t = ((\<forall>k. entry_kind (s k) = entry_kind (t k)) \<and>
                s ''dev'' = t ''dev'' \<and> s ''sudo'' = t ''sudo'')"

definition staff_ok :: "staff_dict \<Rightarrow> bool" where
  "staff_ok s = (dom s \<subseteq> {''owner'', ''dev'', ''sudo''} \<and> (\<exists>n. s ''owner'' = Some (Ident n)))"

subsection \<open>Construction\<close>

text \<open>
  \<open>__init__\<close> (lines 26-36). The parameter \<open>kwargs\<close> is rebound to a dictionary literal
  before it is read, the start time is taken from the clock (\<open>now\<close>), the owner is stored
  in the staff dictionary, and the rebuilt \<open>kwargs\<close> go to the constructor of the chat
  client.
\<close>

datatype kw_val = KInt int | KStr string

type_synonym kwargs = "string \<rightharpoonup> kw_val"

record 't nekobot =
  start_time :: 't
  client_kwargs :: kwargs

definition init :: "config \<Rightarrow> 't \<Rightarrow> kwargs \<Rightarrow> staff_dict \<Rightarrow> 't nekobot \<times> staff_dict" where
  "init cfg now kwargs s =
     (let kwargs = [''api_id'' \<mapsto> KInt (API_ID cfg),
                    ''api_hash'' \<mapsto> KStr (API_HASH cfg),
                    ''bot_token'' \<mapsto> KStr (BOT_TOKEN cfg),
                    ''session_name'' \<mapsto> KStr '':memory:'']
      in (\<lparr>start_time = now, client_kwargs = kwargs\<rparr>, init_staff cfg s))"

subsection \<open>Command registration\<close>

text \<open>
  A filter of the chat library is an object; \<open>&\<close> builds an \<open>AndFilter\<close> of two filters.
  \<open>Command cmd\<close> is \<open>cust_filter.command(commands=cmd)\<close>, \<open>Admin\<close>, \<open>BotAdmin\<close> and \<open>Staff\<close>
  are \<open>cust_filter.admin\<close>, \<open>cust_filter.bot_admin\<close> and \<open>cust_filter.staff\<close>, and \<open>Builtin x\<close>
  is any filter of the library a caller passes in.
\<close>

datatype cmd_arg = Cmd string | Cmds "string list"











subsection \<open>Lifecycle: effects and collaborators\<close>

text \<open>
  The lifecycle code calls the connection pool, the database, the plugin modules, the chat
  client and the event loop. Every such call is recorded as an event, in the order the
  calls are made; \<open>'k\<close> is the type of the tasks of the event loop. \<open>Log\<close> is a call of
  the logger with its message, \<open>FindStaff\<close> is the iteration of the \<open>STAFF\<close> collection by
  \<open>_load_staff\<close>, \<open>SuperStart\<close> and \<open>SuperStop\<close> are \<open>start\<close> and \<open>stop\<close> of the chat
  client, \<open>TaskCancel t\<close> is \<open>t.cancel()\<close>, \<open>RunCoro\<close> and \<open>Idle\<close> are
  \<open>run_until_complete(coro)\<close> and \<open>idle()\<close>.
\<close>

datatype signal = SIGHUP | SIGTERM | SIGINT

fun signal_name :: "signal \<Rightarrow> string" where
  "signal_name SIGHUP = ''SIGHUP''"
| "signal_name SIGTERM = ''SIGTERM''"
| "signal_name SIGINT = ''SIGINT''"

datatype 'k event =
    Log string
  | PoolStart
  | ConnectDb string
  | ImportModule string
  | FindStaff
  | SuperStart
  | SuperStop
  | DisconnectDb
  | PoolStop
  | LockAcquire
  | LockRelease
  | TaskCancel 'k
  | ShutdownAsyncgens
  | LoopStop
  | LoopClose
  | AddSignalHandler signal
  | RunCoro
  | Idle

text \<open>
  What the collaborators answer during one run: \<open>None\<close> where a call returns, \<open>Some e\<close>
  where it raises \<open>e\<close> (a cancellation delivered at an \<open>await\<close> is \<open>Some CancelledError\<close>
  there). \<open>all_modules\<close> is \<open>ALL_MODULES\<close>, \<open>module_flag\<close> tells whether an imported module
  has a truthy \<open>__MODULE__\<close>, \<open>staff_cursor\<close> is what the \<open>STAFF\<close> collection iterates,
  \<open>is_initialized\<close> is the flag of the chat client when \<open>finalized\<close> reads it, and
  \<open>all_tasks\<close> and \<open>current_task\<close> are what \<open>asyncio\<close> returns in \<open>finalized\<close>.
\<close>

record 'k env =
  all_modules :: "string list"
  module_flag :: "string \<Rightarrow> bool"
  pool_start_r :: "error option"
  connect_db_r :: "error option"
  import_r :: "string \<Rightarrow> error option"
  staff_cursor :: cursor
  super_start_r :: "error option"
  is_initialized :: bool
  super_stop_r :: "error option"
  disconnect_db_r :: "error option"
  pool_stop_r :: "error option"
  all_tasks :: "'k list"
  current_task :: 'k
  shutdown_asyncgens_r :: "error option"
  idle_r :: "error option"
  loop_close_r :: "error option"

text \<open>
  A run is the events of a piece of code and how it ended. A sequence of statements runs
  them in order and stops at the first one that raises.
\<close>

type_synonym 'k run = "'k event list \<times> error option"

definition call :: "'k event \<Rightarrow> error option \<Rightarrow> 'k run" where
  "call ev r = ([ev], r)"

definition then_run :: "'k run \<Rightarrow> 'k run \<Rightarrow> 'k run" where
  "then_run a b = (case snd a of None \<Rightarrow> (fst a @ fst b, snd b) | Some e \<Rightarrow> a)"

fun seq :: "'k run list \<Rightarrow> 'k run" where
  "seq [] = ([], None)"
| "seq (a # rest) = then_run a (seq rest)"

subsection \<open>Lifecycle: start, stop, shutdown\<close>



text \<open>\<open>stop\<close> (lines 77-82).\<close>

definition stop :: "'k env \<Rightarrow> 'k run" where
  "stop env =
     seq [call (Log ''Disconnecting...'') None,
          call SuperStop (super_stop_r env),
          call DisconnectDb (disconnect_db_r env),
          call PoolStop (pool_stop_r env)]"

text \<open>
  \<open>finalized\<close> (lines 90-100), a closure over the list \<open>tasks\<close> of \<open>begin\<close>. The body runs
  between acquiring and releasing the lock; \<open>async with\<close> releases the lock also when the
  body raises, and the exception goes on.
\<close>

definition cancel_all :: "'k list \<Rightarrow> 'k run" where
  "cancel_all ts = seq (map (\<lambda>t. call (TaskCancel t) None) ts)"

definition finalized_body :: "'k list \<Rightarrow> 'k env \<Rightarrow> 'k run" where
  "finalized_body tasks env =
     seq [cancel_all tasks,
          if is_initialized env then stop env else seq [],
          cancel_all (filter (\<lambda>t. t \<noteq> current_task env) (all_tasks env)),
          call ShutdownAsyncgens (shutdown_asyncgens_r env),
          call LoopStop None,
          call (Log ''Loop stopped'') None]"

definition finalized :: "'k list \<Rightarrow> 'k env \<Rightarrow> 'k run" where
  "finalized tasks env =
     (let body = finalized_body tasks env
      in ([LockAcquire] @ fst body @ [LockRelease], snd body))"

text \<open>\<open>shutdown\<close> (lines 102-104), what a signal handler schedules.\<close>

definition shutdown :: "'k list \<Rightarrow> 'k env \<Rightarrow> signal \<Rightarrow> 'k run" where
  "shutdown tasks env sig =
     seq [call (Log (''Received Stop Signal ['' @ signal_name sig @ ''], Exiting...'')) None,
          finalized tasks env]"




text \<open>
  The shutdown steps in the order the specification lists them: cancel the tracked tasks,
  stop the client when it is initialized (which disconnects the database and stops the
  pool), cancel every other task of the loop, shut down the asynchronous generators, stop
  the loop.
\<close>

definition shutdown_order :: "'k list \<Rightarrow> 'k env \<Rightarrow> 'k event list" where
  "shutdown_order tasks env =
     map TaskCancel tasks @
     (if is_initialized env then [Log ''Disconnecting...'', SuperStop, DisconnectDb, PoolStop] else []) @
     map TaskCancel (filter (\<lambda>t. t \<noteq> current_task env) (all_tasks env)) @
     [ShutdownAsyncgens, LoopStop, Log ''Loop stopped'']"

text \<open>
  The first exception among the outcomes of calls made in order, what \<open>begin\<close> awaits
  before \<open>finalized\<close>, and the events that registering the handlers and \<open>start\<close> can
  produce.
\<close>

fun first_error :: "error option list \<Rightarrow> error option" where
  "first_error [] = None"
| "first_error (None # rest) = first_error rest"
| "first_error (Some e # rest) = Some e"



text \<open>
  An environment for examples: two plugin modules, one staff record, three tasks on the
  loop of which task 1 is the running one, an initialized client, and every collaborator
  returning normally.
\<close>

definition quiet_env :: "nat env" where
  "quiet_env =
     \<lparr>all_modules = [''admin'', ''misc''], module_flag = (\<lambda>m. m = ''admin''),
      pool_start_r = None, connect_db_r = None, import_r = (\<lambda>m. None),
      staff_cursor = ([\<lparr>doc_rank = ''dev'', doc_id = 11\<rparr>], None), super_start_r = None,
      is_initialized = True, super_stop_r = None, disconnect_db_r = None, pool_stop_r = None,
      all_tasks = [0, 1, 2], current_task = 1, shutdown_asyncgens_r = None, idle_r = None,
      loop_close_r = None\<rparr>"

subsection \<open>Lifecycle: shutdowns running side by side\<close>

text \<open>
  Signal handlers schedule \<open>shutdown\<close> as tasks of the event loop
  (\<open>self.loop.create_task(shutdown(sig))\<close>, line 108), and \<open>begin\<close> itself runs
  \<open>finalized\<close> as a task (line 119); all of them share the one \<open>lock\<close> of line 87. The loop
  runs one task at a time, from one \<open>await\<close> to the next, so a task is observed only where
  it is suspended: not yet run (\<open>Created\<close>), inside \<open>lock.acquire()\<close> (\<open>WaitLock\<close>), inside
  the \<open>async with\<close> block at one of its four awaits (\<open>super().stop()\<close>,
  \<open>disconnect_db()\<close>, \<open>pool.stop()\<close>, \<open>shutdown_asyncgens()\<close>), or finished with its
  outcome.
\<close>

datatype pc =
    Created
  | WaitLock
  | AwaitSuperStop
  | AwaitDisconnectDb
  | AwaitPoolStop
  | AwaitAsyncgens
  | Finished "error option"

record sched =
  locked :: bool
  pcs :: "pc list"
  cancel_req :: "bool list"

text \<open>
  What can happen next: a signal arrives and its handler creates a task, \<open>begin\<close> creates
  its own task for \<open>finalized\<close>, or the loop resumes task \<open>i\<close>; then the awaited call of the
  task returns (\<open>None\<close>) or raises, and \<open>is_initialized\<close> has the given value if the task
  reads it.
\<close>

datatype action =
    Signal signal
  | MainFinalized
  | Step nat "error option" bool

fun in_flight :: "pc \<Rightarrow> bool" where
  "in_flight AwaitSuperStop = True"
| "in_flight AwaitDisconnectDb = True"
| "in_flight AwaitPoolStop = True"
| "in_flight AwaitAsyncgens = True"
| "in_flight p = False"

fun is_finished :: "pc \<Rightarrow> bool" where
  "is_finished (Finished r) = True"
| "is_finished p = False"

text \<open>
  \<open>spawn\<close> is \<open>create_task\<close>. \<open>cancel_others\<close> is line 97: \<open>cancel()\<close> on every task but
  the running one; it requests a cancellation, delivered as \<open>CancelledError\<close> when the task
  is resumed, and does nothing to a finished task. \<open>enter\<close> is a task taking the free lock
  and running lines 92-98 up to its first await (the list \<open>tasks\<close> is empty); \<open>leave\<close> is
  the end of the \<open>async with\<close> block, which releases the lock, with the outcome of the
  task. A waiting task goes on only when the lock is free; which of several waiting tasks
  goes first is left to the schedule, which allows more interleavings than the queue of the
  lock does.
\<close>

definition spawn :: "sched \<Rightarrow> sched" where
  "spawn st = st\<lparr>pcs := pcs st @ [Created], cancel_req := cancel_req st @ [False]\<rparr>"

definition cancel_others :: "nat \<Rightarrow> sched \<Rightarrow> sched" where
  "cancel_others i st =
     st\<lparr>cancel_req :=
          map (\<lambda>j. if j = i \<or> is_finished (pcs st ! j) then cancel_req st ! j else True)
            [0..<length (pcs st)]\<rparr>"

definition enter :: "nat \<Rightarrow> bool \<Rightarrow> sched \<Rightarrow> sched" where
  "enter i initialized st =
     (if initialized
      then st\<lparr>locked := True, pcs := (pcs st)[i := AwaitSuperStop]\<rparr>
      else cancel_others i (st\<lparr>locked := True, pcs := (pcs st)[i := AwaitAsyncgens]\<rparr>))"

definition leave :: "nat \<Rightarrow> error option \<Rightarrow> sched \<Rightarrow> sched" where
  "leave i r st = st\<lparr>locked := False, pcs := (pcs st)[i := Finished r]\<rparr>"

definition resume :: "nat \<Rightarrow> error option \<Rightarrow> bool \<Rightarrow> sched \<Rightarrow> sched" where
  "resume i r initialized st =
     (if length (pcs st) \<le> i \<or> length (cancel_req st) \<le> i then st
      else
        (case pcs st ! i of
           Finished x \<Rightarrow> st
         | Created \<Rightarrow>
             if cancel_req st ! i then st\<lparr>pcs := (pcs st)[i := Finished (Some CancelledError)]\<rparr>
             else if locked st then st\<lparr>pcs := (pcs st)[i := WaitLock]\<rparr>
             else enter i initialized st
         | WaitLock \<Rightarrow>
             if cancel_req st ! i then st\<lparr>pcs := (pcs st)[i := Finished (Some CancelledError)]\<rparr>
             else if locked st then st
             else enter i initialized st
         | AwaitSuperStop \<Rightarrow>
             if cancel_req st ! i then leave i (Some CancelledError) st
             else (case r of Some e \<Rightarrow> leave i (Some e) st
                   | None \<Rightarrow> st\<lparr>pcs := (pcs st)[i := AwaitDisconnectDb]\<rparr>)
         | AwaitDisconnectDb \<Rightarrow>
             if cancel_req st ! i then leave i (Some CancelledError) st
             else (case r of Some e \<Rightarrow> leave i (Some e) st
                   | None \<Rightarrow> st\<lparr>pcs := (pcs st)[i := AwaitPoolStop]\<rparr>)
         | AwaitPoolStop \<Rightarrow>
             if cancel_req st ! i then leave i (Some CancelledError) st
             else (case r of Some e \<Rightarrow> leave i (Some e) st
                   | None \<Rightarrow> cancel_others i (st\<lparr>pcs := (pcs st)[i := AwaitAsyncgens]\<rparr>))
         | AwaitAsyncgens \<Rightarrow>
             if cancel_req st ! i then leave i (Some CancelledError) st
             else (case r of Some e \<Rightarrow> leave i (Some e) st
                   | None \<Rightarrow> leave i None st)))"

fun exec :: "action \<Rightarrow> sched \<Rightarrow> sched" where
  "exec (Signal sg) st = spawn st"
| "exec MainFinalized st = spawn st"
| "exec (Step i r initialized) st = resume i r initialized st"

definition init_sched :: sched where
  "init_sched = \<lparr>locked = False, pcs = [], cancel_req = []\<rparr>"

definition run_schedule :: "action list \<Rightarrow> sched \<Rightarrow> sched" where
  "run_schedule acts st = fold exec acts st"

definition in_flight_count :: "sched \<Rightarrow> nat" where
  "in_flight_count st = length (filter in_flight (pcs st))"

definition lock_inv :: "sched \<Rightarrow> bool" where
  "lock_inv st = (in_flight_count st = (if locked st then 1 else 0))"

section \<open>Properties\<close>

subsection \<open>Staff registry\<close>

text \<open>
  While every record has the rank \<open>"dev"\<close> or \<open>"sudo"\<close>, the loop appends each identifier
  to the list of its rank and ends as the iteration ends.
\<close>

lemma load_loop_good:
  assumes "\<forall>d\<in>set docs. good_rank d"
    and "s ''dev'' = Some (Idents ds)" and "s ''sudo'' = Some (Idents us)"
  shows "load_loop s docs fin =
           (s(''dev'' \<mapsto> Idents (ds @ ids_of_rank ''dev'' docs),
              ''sudo'' \<mapsto> Idents (us @ ids_of_rank ''sudo'' docs)), fin)"
  using assms
proof (induction docs arbitrary: s ds us)
  case Nil
  then show ?case by (auto simp: ids_of_rank_def)
next
  case (Cons d docs)
  from Cons.prems(1) have g: "good_rank d" and rest: "\<forall>d\<in>set docs. good_rank d" by auto
  from g consider "doc_rank d = ''dev''" | "doc_rank d = ''sudo''" by (auto simp: good_rank_def)
  then show ?case
  proof cases
    case 1
    let ?s' = "s(''dev'' \<mapsto> Idents (ds @ [doc_id d]))"
    have st: "append_staff s d = (?s', None)"
      using Cons.prems 1 by (simp add: append_staff_def)
    have ih: "load_loop ?s' docs fin =
        (?s'(''dev'' \<mapsto> Idents ((ds @ [doc_id d]) @ ids_of_rank ''dev'' docs),
             ''sudo'' \<mapsto> Idents (us @ ids_of_rank ''sudo'' docs)), fin)"
      using Cons.prems by (intro Cons.IH[OF rest]) simp_all
    have eq: "?s'(''dev'' \<mapsto> Idents ((ds @ [doc_id d]) @ ids_of_rank ''dev'' docs),
             ''sudo'' \<mapsto> Idents (us @ ids_of_rank ''sudo'' docs)) =
          s(''dev'' \<mapsto> Idents (ds @ ids_of_rank ''dev'' (d # docs)),
              ''sudo'' \<mapsto> Idents (us @ ids_of_rank ''sudo'' (d # docs)))"
      using 1 by (intro ext) (simp add: ids_of_rank_def)
    have "load_loop s (d # docs) fin = load_loop ?s' docs fin" using st by simp
    then show ?thesis by (simp only: ih eq)
  next
    case 2
    let ?s' = "s(''sudo'' \<mapsto> Idents (us @ [doc_id d]))"
    have st: "append_staff s d = (?s', None)"
      using Cons.prems 2 by (simp add: append_staff_def)
    have ih: "load_loop ?s' docs fin =
        (?s'(''dev'' \<mapsto> Idents (ds @ ids_of_rank ''dev'' docs),
             ''sudo'' \<mapsto> Idents ((us @ [doc_id d]) @ ids_of_rank ''sudo'' docs)), fin)"
      using Cons.prems by (intro Cons.IH[OF rest]) simp_all
    have eq: "?s'(''dev'' \<mapsto> Idents (ds @ ids_of_rank ''dev'' docs),
             ''sudo'' \<mapsto> Idents ((us @ [doc_id d]) @ ids_of_rank ''sudo'' docs)) =
          s(''dev'' \<mapsto> Idents (ds @ ids_of_rank ''dev'' (d # docs)),
              ''sudo'' \<mapsto> Idents (us @ ids_of_rank ''sudo'' (d # docs)))"
      using 2 by (intro ext) (simp add: ids_of_rank_def)
    have "load_loop s (d # docs) fin = load_loop ?s' docs fin" using st by simp
    then show ?thesis by (simp only: ih eq)
  qed
qed

text \<open>
  Claim C1. For every sequence of staff records with ranks in \<open>{"dev", "sudo"}\<close> and every
  configured owner identifier, \<open>_load_staff\<close> returns normally, and \<open>staff_id\<close> then returns
  the owner followed by the \<open>"dev"\<close> identifiers and then the \<open>"sudo"\<close> identifiers, each in
  the order the records were iterated, with duplicates kept.
\<close>

theorem staff_id_after_load:
  assumes "\<forall>d\<in>set docs. doc_rank d = ''dev'' \<or> doc_rank d = ''sudo''"
  shows "snd (load_staff (init_staff cfg s0) (docs, None)) = None \<and>
         staff_id (fst (load_staff (init_staff cfg s0) (docs, None))) =
           Inr ([Ident (OWNER_ID cfg)] @ map Ident (ids_of_rank ''dev'' docs)
                  @ map Ident (ids_of_rank ''sudo'' docs))"
proof -
  let ?s = "(init_staff cfg s0)(''dev'' \<mapsto> Idents [], ''sudo'' \<mapsto> Idents [])"
  have g: "\<forall>d\<in>set docs. good_rank d" using assms by (simp add: good_rank_def)
  have "load_loop ?s docs None =
          (?s(''dev'' \<mapsto> Idents ([] @ ids_of_rank ''dev'' docs),
              ''sudo'' \<mapsto> Idents ([] @ ids_of_rank ''sudo'' docs)), None)"
    by (rule load_loop_good[OF g]) simp_all
  then show ?thesis
    by (simp add: load_staff_def staff_id_def init_staff_def)
qed

theorem staff_id_after_load_witness:
  "staff_id (fst (load_staff
       (init_staff \<lparr>API_ID = 1, API_HASH = ''h'', BOT_TOKEN = ''t'', OWNER_ID = 7\<rparr> Map.empty)
       ([\<lparr>doc_rank = ''sudo'', doc_id = 22\<rparr>, \<lparr>doc_rank = ''dev'', doc_id = 11\<rparr>,
         \<lparr>doc_rank = ''sudo'', doc_id = 33\<rparr>, \<lparr>doc_rank = ''dev'', doc_id = 11\<rparr>], None)))
   = Inr [Ident 7, Ident 11, Ident 11, Ident 22, Ident 33]"
  using staff_id_after_load[of
      "[\<lparr>doc_rank = ''sudo'', doc_id = 22\<rparr>, \<lparr>doc_rank = ''dev'', doc_id = 11\<rparr>,
        \<lparr>doc_rank = ''sudo'', doc_id = 33\<rparr>, \<lparr>doc_rank = ''dev'', doc_id = 11\<rparr>]"
      "\<lparr>API_ID = 1, API_HASH = ''h'', BOT_TOKEN = ''t'', OWNER_ID = 7\<rparr>" Map.empty]
  by (simp add: ids_of_rank_def)

text \<open>
  \<open>_load_staff\<close> never changes the kind of an entry, and on two dictionaries that agree it
  ends the same way and leaves them in agreement.
\<close>

lemma append_staff_kind: "entry_kind (fst (append_staff s d) k) = entry_kind (s k)"
  by (auto simp: append_staff_def split: option.splits staff_val.splits)

lemma load_loop_kind: "entry_kind (fst (load_loop s docs fin) k) = entry_kind (s k)"
proof (induction docs arbitrary: s)
  case Nil
  show ?case by simp
next
  case (Cons d docs)
  show ?case
  proof (cases "append_staff s d")
    case (Pair s' r)
    then have k: "entry_kind (s' k) = entry_kind (s k)"
      using append_staff_kind[of s d k] by simp
    show ?thesis using Pair k Cons.IH[of s'] by (cases r) simp_all
  qed
qed

lemma append_staff_agree:
  assumes "agree s t"
  shows "agree (fst (append_staff s d)) (fst (append_staff t d)) \<and>
         snd (append_staff s d) = snd (append_staff t d)"
proof -
  have k: "entry_kind (s (doc_rank d)) = entry_kind (t (doc_rank d))"
    using assms by (simp add: agree_def)
  show ?thesis
  proof (cases "s (doc_rank d)")
    case None
    then have "t (doc_rank d) = None" using k by (cases "t (doc_rank d)" rule: entry_kind.cases) auto
    with None assms show ?thesis by (simp add: append_staff_def)
  next
    case (Some v)
    show ?thesis
    proof (cases v)
      case (Ident n)
      then obtain m where "t (doc_rank d) = Some (Ident m)"
        using k Some by (cases "t (doc_rank d)" rule: entry_kind.cases) auto
      with Some Ident assms show ?thesis by (simp add: append_staff_def)
    next
      case (Idents l)
      then obtain m where tm: "t (doc_rank d) = Some (Idents m)"
        using k Some by (cases "t (doc_rank d)" rule: entry_kind.cases) auto
      have "doc_rank d = ''dev'' \<or> doc_rank d = ''sudo'' \<Longrightarrow> m = l"
        using assms Some Idents tm by (auto simp: agree_def)
      with Some Idents tm assms show ?thesis
        by (auto simp: append_staff_def agree_def)
    qed
  qed
qed

lemma load_loop_agree:
  assumes "agree s t"
  shows "agree (fst (load_loop s docs fin)) (fst (load_loop t docs fin)) \<and>
         snd (load_loop s docs fin) = snd (load_loop t docs fin)"
  using assms
proof (induction docs arbitrary: s t)
  case Nil
  then show ?case by simp
next
  case (Cons d docs)
  obtain s' r where a: "append_staff s d = (s', r)" by (cases "append_staff s d")
  obtain t' r' where b: "append_staff t d = (t', r')" by (cases "append_staff t d")
  from append_staff_agree[OF Cons.prems, of d] a b
  have ag: "agree s' t'" and rr: "r = r'" by simp_all
  show ?case
  proof (cases r)
    case None
    then show ?thesis using a b rr Cons.IH[OF ag] by auto
  next
    case (Some e)
    then show ?thesis using a b rr ag by auto
  qed
qed

text \<open>
  Claim C2. For every two record sequences \<open>R1\<close> and \<open>R2\<close> (and every dictionary to start
  from), \<open>_load_staff\<close> over \<open>R1\<close> and then over \<open>R2\<close> leaves the \<open>"dev"\<close> and \<open>"sudo"\<close> entries
  that \<open>_load_staff\<close> over \<open>R2\<close> alone leaves, and ends the same way: nothing accumulates
  across calls.
\<close>

theorem load_staff_replaces:
  "fst (load_staff (fst (load_staff s R1)) R2) ''dev'' = fst (load_staff s R2) ''dev'' \<and>
   fst (load_staff (fst (load_staff s R1)) R2) ''sudo'' = fst (load_staff s R2) ''sudo'' \<and>
   snd (load_staff (fst (load_staff s R1)) R2) = snd (load_staff s R2)"
proof -
  let ?reset = "\<lambda>s::staff_dict. s(''dev'' \<mapsto> Idents [], ''sudo'' \<mapsto> Idents [])"
  let ?s1 = "fst (load_staff s R1)"
  have kind: "entry_kind (?s1 k) = entry_kind (?reset s k)" for k
    unfolding load_staff_def by (rule load_loop_kind)
  have "agree (?reset ?s1) (?reset s)"
    unfolding agree_def
  proof (intro conjI allI)
    fix k
    show "entry_kind ((?reset ?s1) k) = entry_kind ((?reset s) k)"
      using kind[of k] by (cases "k = ''dev''"; cases "k = ''sudo''"; simp)
  qed simp_all
  from load_loop_agree[OF this, of "fst R2" "snd R2"]
  show ?thesis by (simp add: load_staff_def agree_def)
qed

theorem load_staff_replaces_witness:
  "fst (load_staff (fst (load_staff Map.empty ([\<lparr>doc_rank = ''dev'', doc_id = 1\<rparr>], None)))
         ([\<lparr>doc_rank = ''dev'', doc_id = 2\<rparr>], None)) ''dev'' = Some (Idents [2])"
  using load_staff_replaces[of Map.empty "([\<lparr>doc_rank = ''dev'', doc_id = 1\<rparr>], None)"
      "([\<lparr>doc_rank = ''dev'', doc_id = 2\<rparr>], None)"]
  by (simp add: load_staff_def append_staff_def)

text \<open>
  The dictionaries of this file stay as \<open>staff_ok\<close> describes them, and on such a
  dictionary a record of another rank fails.
\<close>

lemma staff_ok_init: "dom s \<subseteq> {''owner'', ''dev'', ''sudo''} \<Longrightarrow> staff_ok (init_staff cfg s)"
  by (auto simp: staff_ok_def init_staff_def)

lemma append_staff_dom: "dom (fst (append_staff s d)) = dom s"
  by (auto simp: append_staff_def split: option.splits staff_val.splits if_splits)

lemma append_staff_owner:
  "s ''owner'' = Some (Ident n) \<Longrightarrow> fst (append_staff s d) ''owner'' = Some (Ident n)"
  by (auto simp: append_staff_def split: option.splits staff_val.splits)

lemma load_loop_dom: "dom (fst (load_loop s docs fin)) = dom s"
proof (induction docs arbitrary: s)
  case Nil
  show ?case by simp
next
  case (Cons d docs)
  obtain s' r where a: "append_staff s d = (s', r)" by (cases "append_staff s d")
  then have "dom s' = dom s" using append_staff_dom[of s d] by simp
  then show ?case using a Cons.IH[of s'] by (cases r) auto
qed

lemma load_loop_owner:
  "s ''owner'' = Some (Ident n) \<Longrightarrow> fst (load_loop s docs fin) ''owner'' = Some (Ident n)"
proof (induction docs arbitrary: s)
  case Nil
  then show ?case by simp
next
  case (Cons d docs)
  obtain s' r where a: "append_staff s d = (s', r)" by (cases "append_staff s d")
  then have "s' ''owner'' = Some (Ident n)" using append_staff_owner[of s n d] Cons.prems by simp
  then show ?case using a Cons.IH[of s'] by (cases r) auto
qed

lemma staff_ok_load: "staff_ok s \<Longrightarrow> staff_ok (fst (load_staff s cur))"
  unfolding staff_ok_def load_staff_def
  by (auto simp: load_loop_dom intro!: load_loop_owner)

lemma load_loop_append_ok:
  assumes "snd (load_loop s pre None) = None"
  shows "load_loop s (pre @ rest) fin = load_loop (fst (load_loop s pre None)) rest fin"
  using assms
proof (induction pre arbitrary: s)
  case Nil
  show ?case by simp
next
  case (Cons d pre)
  obtain s' r where a: "append_staff s d = (s', r)" by (cases "append_staff s d")
  show ?case using a Cons by (cases r) auto
qed

lemma append_staff_bad:
  assumes "dom s \<subseteq> {''owner'', ''dev'', ''sudo''}" and "s ''owner'' = Some (Ident n)"
    and "\<not> good_rank d"
  shows "append_staff s d = (s, Some (if doc_rank d = ''owner'' then AttributeError else KeyError))"
proof (cases "doc_rank d = ''owner''")
  case True
  with assms show ?thesis by (simp add: append_staff_def)
next
  case False
  with assms have "doc_rank d \<notin> dom s" by (auto simp: good_rank_def)
  then have "s (doc_rank d) = None" by blast
  with False show ?thesis by (simp add: append_staff_def)
qed

text \<open>
  Claim C9. On a staff dictionary of this file, when some record of the \<open>STAFF\<close> collection
  has a rank that is neither \<open>"dev"\<close> nor \<open>"sudo"\<close>, \<open>_load_staff\<close> raises at the first such
  record: \<open>AttributeError\<close> when its rank is \<open>"owner"\<close> (the integer entry has no
  \<open>append\<close>), \<open>KeyError\<close> for any other rank. The error is the outcome of \<open>_load_staff\<close>,
  and the dictionary holds the records before the failing one, which all have rank
  \<open>"dev"\<close> or \<open>"sudo"\<close>.
\<close>

theorem load_staff_bad_rank:
  assumes "staff_ok s" and "\<exists>d\<in>set docs. \<not> good_rank d"
  shows "load_staff s (docs, fin) =
           (fst (load_staff s (takeWhile good_rank docs, None)),
            Some (if doc_rank (hd (dropWhile good_rank docs)) = ''owner''
                  then AttributeError else KeyError))"
proof -
  let ?pre = "takeWhile good_rank docs"
  let ?r = "s(''dev'' \<mapsto> Idents [], ''sudo'' \<mapsto> Idents [])"
  from assms(2) obtain bad post where dw: "dropWhile good_rank docs = bad # post"
    by (cases "dropWhile good_rank docs") (auto simp: dropWhile_eq_Nil_conv)
  then have bad: "\<not> good_rank bad" using hd_dropWhile[of good_rank docs] by auto
  have docs: "docs = ?pre @ bad # post" using dw takeWhile_dropWhile_id[of good_rank docs] by simp
  have pre_good: "\<forall>d\<in>set ?pre. good_rank d" by (auto dest: set_takeWhileD)
  have pre: "load_loop ?r ?pre None =
      (?r(''dev'' \<mapsto> Idents ([] @ ids_of_rank ''dev'' ?pre),
          ''sudo'' \<mapsto> Idents ([] @ ids_of_rank ''sudo'' ?pre)), None)"
    by (rule load_loop_good[OF pre_good]) simp_all
  define s1 where "s1 = fst (load_loop ?r ?pre None)"
  have ok1: "staff_ok (fst (load_staff s (?pre, None)))" by (rule staff_ok_load[OF assms(1)])
  then obtain n where d1: "dom s1 \<subseteq> {''owner'', ''dev'', ''sudo''}" and o1: "s1 ''owner'' = Some (Ident n)"
    by (auto simp: staff_ok_def load_staff_def s1_def)
  have "load_loop ?r (?pre @ bad # post) fin = load_loop s1 (bad # post) fin"
    unfolding s1_def by (rule load_loop_append_ok) (simp only: pre snd_conv)
  also have "\<dots> = (s1, Some (if doc_rank bad = ''owner'' then AttributeError else KeyError))"
    by (simp only: load_loop.simps append_staff_bad[OF d1 o1 bad] prod.case option.case)
  finally have "load_loop ?r docs fin =
      (s1, Some (if doc_rank bad = ''owner'' then AttributeError else KeyError))"
    using docs by simp
  then show ?thesis using dw by (simp add: load_staff_def s1_def)
qed

theorem load_staff_bad_rank_witness:
  "snd (load_staff
       (init_staff \<lparr>API_ID = 1, API_HASH = ''h'', BOT_TOKEN = ''t'', OWNER_ID = 7\<rparr> Map.empty)
       ([\<lparr>doc_rank = ''dev'', doc_id = 11\<rparr>, \<lparr>doc_rank = ''owner'', doc_id = 5\<rparr>,
         \<lparr>doc_rank = ''sudo'', doc_id = 22\<rparr>], None)) = Some AttributeError \<and>
   snd (load_staff
       (init_staff \<lparr>API_ID = 1, API_HASH = ''h'', BOT_TOKEN = ''t'', OWNER_ID = 7\<rparr> Map.empty)
       ([\<lparr>doc_rank = ''dev'', doc_id = 11\<rparr>, \<lparr>doc_rank = ''admin'', doc_id = 5\<rparr>,
         \<lparr>doc_rank = ''sudo'', doc_id = 22\<rparr>], None)) = Some KeyError"
proof -
  let ?s = "init_staff \<lparr>API_ID = 1, API_HASH = ''h'', BOT_TOKEN = ''t'', OWNER_ID = 7\<rparr> Map.empty"
  have ok: "staff_ok ?s" by (simp add: staff_ok_def init_staff_def)
  show ?thesis
    using load_staff_bad_rank[OF ok, of
        "[\<lparr>doc_rank = ''dev'', doc_id = 11\<rparr>, \<lparr>doc_rank = ''owner'', doc_id = 5\<rparr>,
          \<lparr>doc_rank = ''sudo'', doc_id = 22\<rparr>]" None]
      load_staff_bad_rank[OF ok, of
        "[\<lparr>doc_rank = ''dev'', doc_id = 11\<rparr>, \<lparr>doc_rank = ''admin'', doc_id = 5\<rparr>,
          \<lparr>doc_rank = ''sudo'', doc_id = 22\<rparr>]" None]
    by (simp add: good_rank_def)
qed

subsection \<open>Construction\<close>

text \<open>
  Claim C8. For every pair of keyword-argument sets passed to the constructor the result
  is the same: the constructor discards the arguments of the caller and passes the API id,
  the API hash, the bot token and the session name \<open>":memory:"\<close> from the configuration.
\<close>

theorem init_ignores_kwargs:
  "init cfg now kw1 s = init cfg now kw2 s \<and>
   client_kwargs (fst (init cfg now kw1 s)) =
     [''api_id'' \<mapsto> KInt (API_ID cfg), ''api_hash'' \<mapsto> KStr (API_HASH cfg),
      ''bot_token'' \<mapsto> KStr (BOT_TOKEN cfg), ''session_name'' \<mapsto> KStr '':memory:'']"
  by (simp add: init_def)

subsection \<open>Command registration\<close>






subsection \<open>Shutdown\<close>

text \<open>Runs of sequences, of \<open>stop\<close> and of the body of \<open>finalized\<close>.\<close>

lemma then_run_pair:
  "then_run (t, r) b = (case r of None \<Rightarrow> (t @ fst b, snd b) | Some e \<Rightarrow> (t, Some e))"
  by (simp add: then_run_def split: option.splits)

lemma first_error_Cons:
  "first_error (r # rest) = (case r of None \<Rightarrow> first_error rest | Some e \<Rightarrow> Some e)"
  by (cases r) simp_all

lemmas run_simps = then_run_pair call_def first_error_Cons

lemma cancel_all_eq: "cancel_all ts = (map TaskCancel ts, None)"
  unfolding cancel_all_def by (induction ts) (simp_all add: run_simps)

lemma stop_cases:
  "stop env =
     (case super_stop_r env of
        Some e \<Rightarrow> ([Log ''Disconnecting...'', SuperStop], Some e)
      | None \<Rightarrow>
        (case disconnect_db_r env of
           Some e \<Rightarrow> ([Log ''Disconnecting...'', SuperStop, DisconnectDb], Some e)
         | None \<Rightarrow> ([Log ''Disconnecting...'', SuperStop, DisconnectDb, PoolStop], pool_stop_r env)))"
  by (simp add: stop_def run_simps split: option.splits)

lemma stop_outcome:
  "snd (stop env) = first_error [super_stop_r env, disconnect_db_r env, pool_stop_r env]"
  by (simp add: stop_cases run_simps split: option.splits)

lemma stop_prefix:
  "prefix (fst (stop env)) [Log ''Disconnecting...'', SuperStop, DisconnectDb, PoolStop]"
  by (simp add: stop_cases run_simps split: option.splits)

lemma stop_complete:
  "snd (stop env) = None \<Longrightarrow> fst (stop env) = [Log ''Disconnecting...'', SuperStop, DisconnectDb, PoolStop]"
  by (simp add: stop_cases run_simps split: option.splits)

lemma finalized_body_outcome:
  "snd (finalized_body tasks env) =
     first_error ((if is_initialized env
                   then [super_stop_r env, disconnect_db_r env, pool_stop_r env] else []) @
                  [shutdown_asyncgens_r env])"
  by (simp add: finalized_body_def cancel_all_eq stop_cases run_simps split: option.splits)

lemma finalized_body_prefix:
  "prefix (fst (finalized_body tasks env)) (shutdown_order tasks env)"
  by (simp add: finalized_body_def shutdown_order_def cancel_all_eq stop_cases run_simps
      split: option.splits)

lemma finalized_body_complete:
  "snd (finalized_body tasks env) = None \<Longrightarrow>
     fst (finalized_body tasks env) = shutdown_order tasks env"
  by (simp add: finalized_body_def shutdown_order_def cancel_all_eq stop_cases run_simps
      split: option.splits if_splits)

lemma finalized_eq:
  "finalized tasks env =
     (LockAcquire # fst (finalized_body tasks env) @ [LockRelease], snd (finalized_body tasks env))"
  by (simp add: finalized_def Let_def)

lemma finalized_no_stop_events:
  assumes "\<not> is_initialized env"
  shows "SuperStop \<notin> set (fst (finalized tasks env))"
    and "DisconnectDb \<notin> set (fst (finalized tasks env))"
    and "PoolStop \<notin> set (fst (finalized tasks env))"
  using assms finalized_body_prefix[of tasks env]
  by (auto simp: finalized_eq shutdown_order_def dest!: set_mono_prefix)

text \<open>
  Claim C5. In every execution of \<open>finalized\<close> the steps between taking and releasing the
  lock occur in the order of \<open>shutdown_order\<close>: the tracked tasks are cancelled, the client
  is stopped only if it is initialized (and then the database is disconnected and the pool
  stopped), every other task of the loop is cancelled, the asynchronous generators are
  shut down, the loop is stopped. An execution that returns performs all of them; one that
  a raising collaborator cuts short performs a first part of them, and ends with the first
  exception. When the client is not initialized, neither the client nor the database nor
  the pool is stopped, and the execution returns when the generators shut down.
\<close>

theorem finalized_order:
  "(\<exists>body. fst (finalized tasks env) = [LockAcquire] @ body @ [LockRelease] \<and>
           prefix body (shutdown_order tasks env) \<and>
           (snd (finalized tasks env) = None \<longrightarrow> body = shutdown_order tasks env)) \<and>
   snd (finalized tasks env) =
     first_error ((if is_initialized env
                   then [super_stop_r env, disconnect_db_r env, pool_stop_r env] else []) @
                  [shutdown_asyncgens_r env]) \<and>
   (\<not> is_initialized env \<longrightarrow>
      SuperStop \<notin> set (fst (finalized tasks env)) \<and>
      DisconnectDb \<notin> set (fst (finalized tasks env)) \<and>
      PoolStop \<notin> set (fst (finalized tasks env)) \<and>
      (shutdown_asyncgens_r env = None \<longrightarrow>
         finalized tasks env =
           ([LockAcquire] @ map TaskCancel tasks @
              map TaskCancel (filter (\<lambda>t. t \<noteq> current_task env) (all_tasks env)) @
              [ShutdownAsyncgens, LoopStop, Log ''Loop stopped'', LockRelease], None)))"
proof (intro conjI impI)
  show "\<exists>body. fst (finalized tasks env) = [LockAcquire] @ body @ [LockRelease] \<and>
           prefix body (shutdown_order tasks env) \<and>
           (snd (finalized tasks env) = None \<longrightarrow> body = shutdown_order tasks env)"
    using finalized_body_prefix[of tasks env] finalized_body_complete[of tasks env]
    by (intro exI[of _ "fst (finalized_body tasks env)"]) (simp add: finalized_eq)
  show "snd (finalized tasks env) =
     first_error ((if is_initialized env
                   then [super_stop_r env, disconnect_db_r env, pool_stop_r env] else []) @
                  [shutdown_asyncgens_r env])"
    using finalized_body_outcome[of tasks env] by (simp add: finalized_eq)
next
  assume n: "\<not> is_initialized env"
  show "SuperStop \<notin> set (fst (finalized tasks env))" by (rule finalized_no_stop_events[OF n])
  show "DisconnectDb \<notin> set (fst (finalized tasks env))" by (rule finalized_no_stop_events[OF n])
  show "PoolStop \<notin> set (fst (finalized tasks env))" by (rule finalized_no_stop_events[OF n])
  assume "shutdown_asyncgens_r env = None"
  with n show "finalized tasks env =
           ([LockAcquire] @ map TaskCancel tasks @
              map TaskCancel (filter (\<lambda>t. t \<noteq> current_task env) (all_tasks env)) @
              [ShutdownAsyncgens, LoopStop, Log ''Loop stopped'', LockRelease], None)"
    by (simp add: finalized_eq finalized_body_def cancel_all_eq run_simps)
qed

theorem finalized_order_witness:
  "finalized [] quiet_env =
     ([LockAcquire, Log ''Disconnecting...'', SuperStop, DisconnectDb, PoolStop,
       TaskCancel 0, TaskCancel 2, ShutdownAsyncgens, LoopStop, Log ''Loop stopped'',
       LockRelease], None) \<and>
   finalized [] (quiet_env\<lparr>is_initialized := False\<rparr>) =
     ([LockAcquire, TaskCancel 0, TaskCancel 2, ShutdownAsyncgens, LoopStop,
       Log ''Loop stopped'', LockRelease], None)"
proof -
  have a: "snd (finalized [] quiet_env) = None"
    using finalized_order[of "[]" quiet_env] by (simp add: quiet_env_def)
  then have "fst (finalized [] quiet_env) =
      [LockAcquire] @ shutdown_order [] quiet_env @ [LockRelease]"
    using finalized_order[of "[]" quiet_env] by auto
  then have b: "fst (finalized [] quiet_env) =
     [LockAcquire, Log ''Disconnecting...'', SuperStop, DisconnectDb, PoolStop,
       TaskCancel 0, TaskCancel 2, ShutdownAsyncgens, LoopStop, Log ''Loop stopped'',
       LockRelease]"
    by (simp add: shutdown_order_def quiet_env_def)
  have c: "finalized [] (quiet_env\<lparr>is_initialized := False\<rparr>) =
     ([LockAcquire, TaskCancel 0, TaskCancel 2, ShutdownAsyncgens, LoopStop,
       Log ''Loop stopped'', LockRelease], None)"
    using finalized_order[of "[]" "quiet_env\<lparr>is_initialized := False\<rparr>"]
    by (simp add: quiet_env_def)
  from a b c show ?thesis by (simp add: prod_eq_iff)
qed

subsection \<open>Begin\<close>













subsection \<open>Shutdowns running side by side\<close>

text \<open>
  The number of tasks inside the \<open>async with\<close> block is one while the lock is held and
  zero otherwise, and every step keeps it so.
\<close>

lemma count_update_out:
  "i < length xs \<Longrightarrow> \<not> P (xs ! i) \<Longrightarrow>
     length (filter P (xs[i := x])) = length (filter P xs) + (if P x then 1 else 0)"
proof (induction xs arbitrary: i)
  case Nil
  then show ?case by simp
next
  case (Cons a xs)
  then show ?case by (cases i) auto
qed

lemma count_update_in:
  "i < length xs \<Longrightarrow> P (xs ! i) \<Longrightarrow>
     length (filter P (xs[i := x])) + 1 = length (filter P xs) + (if P x then 1 else 0)"
proof (induction xs arbitrary: i)
  case Nil
  then show ?case by simp
next
  case (Cons a xs)
  then show ?case by (cases i) auto
qed

lemma cancel_others_pcs [simp]: "pcs (cancel_others i st) = pcs st"
  and cancel_others_locked [simp]: "locked (cancel_others i st) = locked st"
  by (simp_all add: cancel_others_def)

lemma lock_inv_cancel_others [simp]: "lock_inv (cancel_others i st) = lock_inv st"
  by (simp add: lock_inv_def in_flight_count_def)

lemma lock_inv_spawn: "lock_inv st \<Longrightarrow> lock_inv (spawn st)"
  by (simp add: lock_inv_def in_flight_count_def spawn_def)

lemma lock_inv_enter:
  assumes "lock_inv st" "\<not> locked st" "i < length (pcs st)" "\<not> in_flight (pcs st ! i)"
  shows "lock_inv (enter i b st)"
  using assms count_update_out[of i "pcs st" in_flight]
  by (simp add: enter_def lock_inv_def in_flight_count_def)

lemma lock_inv_leave:
  assumes "lock_inv st" "i < length (pcs st)" "in_flight (pcs st ! i)"
  shows "lock_inv (leave i r st)"
proof -
  have "locked st" using assms by (auto simp: lock_inv_def in_flight_count_def filter_empty_conv split: if_splits)
  then show ?thesis
    using assms count_update_in[of i "pcs st" in_flight "Finished r"]
    by (simp add: leave_def lock_inv_def in_flight_count_def)
qed

lemma lock_inv_move:
  assumes "lock_inv st" "i < length (pcs st)" "in_flight (pcs st ! i) = in_flight p"
  shows "lock_inv (st\<lparr>pcs := (pcs st)[i := p]\<rparr>)"
proof (cases "in_flight p")
  case True
  with assms count_update_in[of i "pcs st" in_flight p] show ?thesis
    by (simp add: lock_inv_def in_flight_count_def)
next
  case False
  with assms count_update_out[of i "pcs st" in_flight p] show ?thesis
    by (simp add: lock_inv_def in_flight_count_def)
qed

lemma lock_inv_resume: "lock_inv st \<Longrightarrow> lock_inv (resume i r b st)"
  unfolding resume_def
  by (auto split: pc.splits option.splits
      intro!: lock_inv_enter lock_inv_leave lock_inv_move)

lemma lock_inv_exec: "lock_inv st \<Longrightarrow> lock_inv (exec a st)"
  by (cases a) (simp_all add: lock_inv_spawn lock_inv_resume)

lemma lock_inv_run: "lock_inv st \<Longrightarrow> lock_inv (run_schedule acts st)"
  unfolding run_schedule_def
  by (induction acts arbitrary: st) (simp_all add: lock_inv_exec)

text \<open>
  Claim C6. For every sequence of signal deliveries and task steps, at most one execution
  of the shutdown steps is in flight (inside the \<open>async with lock\<close> block) at any time,
  and one is in flight exactly while the lock is held: a signal that arrives after a
  shutdown has begun creates a task that waits for the lock.
\<close>

theorem one_shutdown_in_flight:
  "in_flight_count (run_schedule acts init_sched) \<le> 1 \<and>
   (locked (run_schedule acts init_sched) \<longleftrightarrow> in_flight_count (run_schedule acts init_sched) = 1)"
proof -
  have "lock_inv init_sched" by (simp add: lock_inv_def in_flight_count_def init_sched_def)
  then have "lock_inv (run_schedule acts init_sched)" by (rule lock_inv_run)
  then show ?thesis by (auto simp: lock_inv_def split: if_splits)
qed

text \<open>
  Two signals: the task of the first is inside the block, the task of the second waits for
  the lock and is cancelled by the sweep of the first. And a signal after a shutdown has
  completed: its task runs the steps again, one after the other.
\<close>

lemmas sched_defs = run_schedule_def init_sched_def spawn_def resume_def enter_def leave_def
  cancel_others_def in_flight_count_def

theorem one_shutdown_in_flight_witness:
  "pcs (run_schedule [Signal SIGINT, Step 0 None True, Signal SIGTERM, Step 1 None True]
          init_sched) = [AwaitSuperStop, WaitLock] \<and>
   in_flight_count (run_schedule [Signal SIGINT, Step 0 None True, Signal SIGTERM, Step 1 None True]
          init_sched) = 1 \<and>
   pcs (run_schedule [Signal SIGINT, Step 0 None True, Signal SIGTERM, Step 1 None True,
          Step 0 None True, Step 0 None True, Step 0 None True, Step 1 None True, Step 0 None True]
          init_sched) = [Finished None, Finished (Some CancelledError)] \<and>
   pcs (run_schedule [Signal SIGINT, Step 0 None False, Step 0 None False, Signal SIGTERM,
          Step 1 None False] init_sched) = [Finished None, AwaitAsyncgens]"
proof -
  have l: "locked (run_schedule [Signal SIGINT, Step 0 None True, Signal SIGTERM, Step 1 None True]
          init_sched)"
    by (simp add: sched_defs)
  with one_shutdown_in_flight[of "[Signal SIGINT, Step 0 None True, Signal SIGTERM, Step 1 None True]"]
  have "in_flight_count (run_schedule [Signal SIGINT, Step 0 None True, Signal SIGTERM, Step 1 None True]
          init_sched) = 1" by blast
  then show ?thesis by (simp add: sched_defs upt_rec)
qed

end
